theory Spec2Isabelle
  imports Main
begin

section \<open>The draw program (draw.cpp): data helpers\<close>

text \<open>
  Strings are byte strings, as \<open>std::string\<close> is. The C++ \<open>int\<close> values of the
  program (the range bound \<open>N\<close>, indices, counters) are modelled as \<open>int\<close>, with the
  overflow written out where a counter can reach the largest \<open>int\<close> (the loop of
  \<open>reset_pool\<close>); sizes and positions in vectors as \<open>nat\<close>.
\<close>

text \<open>The set \<open>" \t\r\n"\<close> that \<open>trim\<close> strips.\<close>

definition is_ws :: "char \<Rightarrow> bool" where
  "is_ws c = (c = CHR '' '' \<or> c = CHR 0x09 \<or> c = CHR 0x0D \<or> c = CHR 0x0A)"

text \<open>
  \<open>trim\<close>: \<open>b\<close> is the first position that is not white space (none: the result is
  empty), \<open>e\<close> the last one, and the result is \<open>s.substr(b, e - b + 1)\<close>.
\<close>

definition trim :: "string \<Rightarrow> string" where
  "trim s =
     (let t = dropWhile is_ws s
      in if t = [] then [] else rev (dropWhile is_ws (rev t)))"

text \<open>
  \<open>dedup_preserve_order\<close>: the outer loop walks \<open>v\<close>, the inner loop looks the
  element up in \<open>out\<close>, and an element not seen yet is pushed to the back of \<open>out\<close>.
\<close>

fun seen :: "string \<Rightarrow> string list \<Rightarrow> bool" where
  "seen x [] = False"
| "seen x (y # out) = (if x = y then True else seen x out)"

fun dedup_loop :: "string list \<Rightarrow> string list \<Rightarrow> string list" where
  "dedup_loop [] out = out"
| "dedup_loop (x # v) out = dedup_loop v (if seen x out then out else out @ [x])"

definition dedup_preserve_order :: "string list \<Rightarrow> string list" where
  "dedup_preserve_order v = dedup_loop v []"

text \<open>
  \<open>vector::erase(begin() + idx)\<close>: the elements behind position \<open>idx\<close> move down by
  one place.
\<close>

fun erase_at :: "nat \<Rightarrow> 'a list \<Rightarrow> 'a list" where
  "erase_at i [] = []"
| "erase_at 0 (x # xs) = xs"
| "erase_at (Suc i) (x # xs) = x # erase_at i xs"

text \<open>Decimal output of an unsigned number, as \<open>operator<<\<close> prints it.\<close>

definition digit_char :: "nat \<Rightarrow> char" where
  "digit_char d = ''0123456789'' ! d"

fun show_nat :: "nat \<Rightarrow> string" where
  "show_nat n = (if n < 10 then [digit_char n] else show_nat (n div 10) @ [digit_char (n mod 10)])"

declare show_nat.simps [simp del]

subsection \<open>Files\<close>

text \<open>
  The file system as the program sees it: the contents of the files that can be opened
  for reading, and the paths at which an \<open>ofstream\<close> can be opened.
\<close>

record filesys =
  files :: "string \<rightharpoonup> string"
  writable :: "string \<Rightarrow> bool"

text \<open>A file system without files, in which no file can be created.\<close>

definition empty_fs :: filesys where
  "empty_fs = \<lparr>files = Map.empty, writable = (\<lambda>p. False)\<rparr>"

text \<open>
  \<open>while (getline(fin, line))\<close>: a line ends at a newline or at the end of the file;
  at the end of the file with nothing left no line is delivered.
\<close>

fun getline_loop :: "string \<Rightarrow> string \<Rightarrow> string list" where
  "getline_loop [] line = (if line = [] then [] else [line])"
| "getline_loop (c # s) line =
     (if c = CHR 0x0A then line # getline_loop s [] else getline_loop s (line @ [c]))"

definition getlines :: "string \<Rightarrow> string list" where
  "getlines s = getline_loop s []"

text \<open>
  \<open>save_history_to_file\<close>: when the stream cannot be opened the function returns and
  nothing is written; otherwise the file is truncated and one line \<open>i+1,history[i]\<close> is
  written for each position \<open>i\<close>. (A stream that opens and then fails while writing
  is not modelled.)
\<close>

function save_loop :: "string list \<Rightarrow> nat \<Rightarrow> string \<Rightarrow> string" where
  "save_loop history i fout =
     (if i < length history
      then save_loop history (i + 1) (fout @ show_nat (i + 1) @ '','' @ history ! i @ [CHR 0x0A])
      else fout)"
  by pat_completeness auto
termination
  by (relation "measure (\<lambda>(history, i, fout). length history - i)") auto

declare save_loop.simps [simp del]

definition save_history_to_file :: "string list \<Rightarrow> string \<Rightarrow> filesys \<Rightarrow> filesys" where
  "save_history_to_file history filename fs =
     (if \<not> writable fs filename then fs
      else fs\<lparr>files := (files fs)(filename \<mapsto> save_loop history 0 [])\<rparr>)"

subsection \<open>The random source\<close>

text \<open>
  The program draws every random number with a \<open>uniform_int_distribution<int>(lo, hi)\<close>
  applied to the one \<open>mt19937\<close> engine created in \<open>main\<close>. Both belong to the C++
  library, so the model takes the sampling step as a parameter: \<open>uniform lo hi rng\<close>
  returns the sample and the engine's next state. The library promises a sample in the
  closed interval when \<open>lo \<le> hi\<close>, which is \<open>sampler_ok\<close>.
\<close>

type_synonym 'g sampler = "int \<Rightarrow> int \<Rightarrow> 'g \<Rightarrow> int \<times> 'g"

definition sampler_ok :: "'g sampler \<Rightarrow> bool" where
  "sampler_ok uniform =
     (\<forall>lo hi rng. lo \<le> hi \<longrightarrow> lo \<le> fst (uniform lo hi rng) \<and> fst (uniform lo hi rng) \<le> hi)"

text \<open>
  A deterministic engine for tests: the state is the list of the samples still to come;
  a scripted value outside the requested interval, or an exhausted script, yields \<open>lo\<close>.
\<close>

definition scripted :: "int list sampler" where
  "scripted lo hi rng =
     (case rng of
        [] \<Rightarrow> (lo, [])
      | x # rest \<Rightarrow> (if lo \<le> x \<and> x \<le> hi then x else lo, rest))"

text \<open>
  The state of the engine after \<open>k\<close> samples over \<open>lo .. hi\<close> were drawn from it and
  dropped. The program has no such function; the theorems use it to count samples.
\<close>

fun consume :: "'g sampler \<Rightarrow> int \<Rightarrow> int \<Rightarrow> nat \<Rightarrow> 'g \<Rightarrow> 'g" where
  "consume uniform lo hi 0 rng = rng"
| "consume uniform lo hi (Suc k) rng = consume uniform lo hi k (snd (uniform lo hi rng))"

text \<open>
  \<open>animated_pick_index\<close>: \<open>dist\<close> ranges over \<open>0 .. size - 1\<close>; the loop shows 26
  candidates, each taken with a sample of its own, and the function returns one more
  sample. What the loop shows does not reach the caller; its effect on the engine does.
\<close>

function pick_index_loop :: "'g sampler \<Rightarrow> int \<Rightarrow> int \<Rightarrow> 'g \<Rightarrow> 'g" where
  "pick_index_loop uniform hi i rng =
     (if i < 26 then pick_index_loop uniform hi (i + 1) (snd (uniform 0 hi rng)) else rng)"
  by pat_completeness auto
termination
  by (relation "measure (\<lambda>(uniform, hi, i, rng). nat (26 - i))") auto

declare pick_index_loop.simps [simp del]

definition animated_pick_index :: "'g sampler \<Rightarrow> string list \<Rightarrow> 'g \<Rightarrow> int \<times> 'g" where
  "animated_pick_index uniform pool rng =
     (let hi = int (length pool) - 1
      in uniform 0 hi (pick_index_loop uniform hi 0 rng))"

text \<open>
  \<open>animated_pick_number\<close>: \<open>dist\<close> ranges over \<open>1 .. N\<close>; the loop shows 32 numbers
  and the function returns one more sample.
\<close>

function pick_number_loop :: "'g sampler \<Rightarrow> int \<Rightarrow> int \<Rightarrow> 'g \<Rightarrow> 'g" where
  "pick_number_loop uniform n i rng =
     (if i < 32 then pick_number_loop uniform n (i + 1) (snd (uniform 1 n rng)) else rng)"
  by pat_completeness auto
termination
  by (relation "measure (\<lambda>(uniform, n, i, rng). nat (32 - i))") auto

declare pick_number_loop.simps [simp del]

definition animated_pick_number :: "'g sampler \<Rightarrow> int \<Rightarrow> 'g \<Rightarrow> int \<times> 'g" where
  "animated_pick_number uniform n rng = uniform 1 n (pick_number_loop uniform n 0 rng)"

subsection \<open>What an operation tells the user\<close>

text \<open>
  Each menu operation ends by printing one message; the model returns it as a value.
  \<^item> \<open>Added n m\<close>: "added \<open>n\<close> entries, \<open>m\<close> can be drawn" (mode A, operation 1);
  \<^item> \<open>Loaded n m\<close>: "loaded \<open>n\<close> entries, \<open>m\<close> can be drawn" (operation 2);
  \<^item> \<open>CannotOpen f\<close>: the red "cannot open file: \<open>f\<close>" of operation 2;
  \<^item> \<open>EmptyPool\<close>: the red "nobody can be drawn" (mode A) and "no number can be
    drawn" (mode B);
  \<^item> \<open>Winner w m\<close>: the winner and the number still in the pool (mode A);
  \<^item> \<open>Shown\<close>: the lists, or the numbers drawn so far, were displayed;
  \<^item> \<open>ResetDone m\<close>: "reset done, \<open>m\<close> can be drawn";
  \<^item> \<open>Exported f\<close>: the green check mark "written: \<open>f\<close>" of operation 6;
  \<^item> \<open>InvalidOption\<close>: "invalid option";
  \<^item> \<open>DomainError\<close>: the red "N must be > 0" (mode B, operation 1);
  \<^item> \<open>NSet n\<close>: "N set to \<open>n\<close>";
  \<^item> \<open>Toggled b\<close>: "no-repeat switched to \<open>b\<close>";
  \<^item> \<open>NotConfigured\<close>: the red "you have not set N yet";
  \<^item> \<open>Number r\<close>: the number drawn (mode B).
  \<open>Undefined\<close> is no message: the source indexes the pool with the sample without a
  check, and \<open>Undefined\<close> marks the undefined behaviour of an index outside the vector.
  A sampler that keeps the library's promise never leads there.
\<close>

datatype report =
    Added nat nat
  | Loaded nat nat
  | CannotOpen string
  | EmptyPool
  | Winner string nat
  | Shown
  | ResetDone nat
  | Exported string
  | InvalidOption
  | DomainError
  | NSet int
  | Toggled bool
  | NotConfigured
  | Number int
  | Undefined

section \<open>Mode A: drawing from a list of names\<close>

record roster =
  all :: "string list"
  pool :: "string list"
  history :: "string list"

definition roster_init :: roster where
  "roster_init = \<lparr>all = [], pool = [], history = []\<rparr>"

text \<open>
  Operation 1 reads lines from the terminal: each line is trimmed, an empty one ends the
  input, any other is pushed to \<open>all\<close> and to \<open>pool\<close>. The argument holds the lines
  as typed, each ended by its newline; at the end of the list the input stream is at its
  end, where \<open>getline\<close> delivers an empty line.
\<close>

fun input_loop :: "string list \<Rightarrow> roster \<Rightarrow> nat \<Rightarrow> roster \<times> nat" where
  "input_loop [] s added = (s, added)"
| "input_loop (l # ls) s added =
     (let line = trim l
      in if line = [] then (s, added)
         else input_loop ls (s\<lparr>all := all s @ [line], pool := pool s @ [line]\<rparr>) (added + 1))"

definition op_manual_input :: "string list \<Rightarrow> roster \<Rightarrow> report \<times> roster" where
  "op_manual_input lines s =
     (let (s1, added) = input_loop lines s 0;
          s2 = s1\<lparr>all := dedup_preserve_order (all s1)\<rparr>;
          s3 = s2\<lparr>pool := dedup_preserve_order (pool s2)\<rparr>
      in (Added added (length (pool s3)), s3))"

text \<open>
  Operation 2 reads the lines of a file: a file that cannot be opened is reported and
  nothing changes; otherwise each line is trimmed, an empty one is skipped, any other is
  pushed to \<open>all\<close> and to \<open>pool\<close>.
\<close>

fun load_loop :: "string list \<Rightarrow> roster \<Rightarrow> nat \<Rightarrow> roster \<times> nat" where
  "load_loop [] s added = (s, added)"
| "load_loop (l # ls) s added =
     (let line = trim l
      in if line = [] then load_loop ls s added
         else load_loop ls (s\<lparr>all := all s @ [line], pool := pool s @ [line]\<rparr>) (added + 1))"

definition op_load_file :: "string \<Rightarrow> filesys \<Rightarrow> roster \<Rightarrow> report \<times> roster" where
  "op_load_file filename fs s =
     (case files fs filename of
        None \<Rightarrow> (CannotOpen filename, s)
      | Some content \<Rightarrow>
          (let (s1, added) = load_loop (getlines content) s 0;
               s2 = s1\<lparr>all := dedup_preserve_order (all s1)\<rparr>;
               s3 = s2\<lparr>pool := dedup_preserve_order (pool s2)\<rparr>
           in (Loaded added (length (pool s3)), s3)))"

text \<open>
  Operation 3 draws one name: with an empty pool it reports that and goes back to the
  menu; otherwise the index comes from \<open>animated_pick_index\<close>, the name at the index is
  the winner, it is erased from the pool and pushed to the history.
\<close>

definition op_draw :: "'g sampler \<Rightarrow> roster \<Rightarrow> 'g \<Rightarrow> report \<times> roster \<times> 'g" where
  "op_draw uniform s rng =
     (if pool s = [] then (EmptyPool, s, rng)
      else
        (let (idx, rng1) = animated_pick_index uniform (pool s) rng
         in if idx < 0 \<or> int (length (pool s)) \<le> idx then (Undefined, s, rng1)
            else
              (let winner = pool s ! nat idx;
                   s1 = s\<lparr>pool := erase_at (nat idx) (pool s)\<rparr>;
                   s2 = s1\<lparr>history := history s1 @ [winner]\<rparr>
               in (Winner winner (length (pool s2)), s2, rng1))))"

text \<open>Operation 5: \<open>pool = all; history.clear()\<close>.\<close>

definition op_reset :: "roster \<Rightarrow> report \<times> roster" where
  "op_reset s =
     (let s1 = s\<lparr>pool := all s\<rparr>;
          s2 = s1\<lparr>history := []\<rparr>
      in (ResetDone (length (pool s2)), s2))"

text \<open>
  Operation 6 calls \<open>save_history_to_file\<close>, which returns nothing, and then prints the
  green check mark with the file name.
\<close>

definition op_export :: "string \<Rightarrow> roster \<Rightarrow> filesys \<Rightarrow> report \<times> filesys" where
  "op_export out s fs = (Exported out, save_history_to_file (history s) out fs)"

text \<open>
  One turn of the menu loop of \<open>mode_list_draw\<close>. A command is the option number read
  from the terminal together with what the operation reads after it.
\<close>

datatype list_cmd =
    ManualInput "string list"
  | LoadFile string
  | DrawOne
  | ViewLists
  | ResetDraw
  | ExportCsv string
  | OtherOption

fun mode_list_step ::
  "'g sampler \<Rightarrow> list_cmd \<Rightarrow> roster \<times> filesys \<times> 'g \<Rightarrow> report \<times> roster \<times> filesys \<times> 'g" where
  "mode_list_step uniform (ManualInput lines) (s, fs, rng) =
     (let (r, s1) = op_manual_input lines s in (r, s1, fs, rng))"
| "mode_list_step uniform (LoadFile filename) (s, fs, rng) =
     (let (r, s1) = op_load_file filename fs s in (r, s1, fs, rng))"
| "mode_list_step uniform DrawOne (s, fs, rng) =
     (let (r, s1, rng1) = op_draw uniform s rng in (r, s1, fs, rng1))"
| "mode_list_step uniform ViewLists (s, fs, rng) = (Shown, s, fs, rng)"
| "mode_list_step uniform ResetDraw (s, fs, rng) =
     (let (r, s1) = op_reset s in (r, s1, fs, rng))"
| "mode_list_step uniform (ExportCsv out) (s, fs, rng) =
     (let (r, fs1) = op_export out s fs in (r, s, fs1, rng))"
| "mode_list_step uniform OtherOption (s, fs, rng) = (InvalidOption, s, fs, rng)"

text \<open>A session: the commands in turn, from a given state; the reports are collected.\<close>

fun mode_list_run ::
  "'g sampler \<Rightarrow> list_cmd list \<Rightarrow> roster \<times> filesys \<times> 'g \<Rightarrow> report list \<times> roster \<times> filesys \<times> 'g" where
  "mode_list_run uniform [] st = ([], st)"
| "mode_list_run uniform (c # cs) st =
     (let (r, st1) = mode_list_step uniform c st;
          (rs, st2) = mode_list_run uniform cs st1
      in (r # rs, st2))"

section \<open>Mode B: drawing from the range 1 .. N\<close>

text \<open>
  The local variables of \<open>mode_range_draw\<close>. (The fields of the two pools carry
  different names here because both records live in one theory.)
\<close>

record range_store =
  N :: int
  noRepeat :: bool
  npool :: "int list"
  nhistory :: "int list"

definition range_init :: range_store where
  "range_init = \<lparr>N = 0, noRepeat = True, npool = [], nhistory = []\<rparr>"

text \<open>
  The lambda \<open>reset_pool\<close>: both vectors are cleared; when \<open>N\<close> is positive the pool
  is filled with \<open>1, 2, ..., N\<close> by the counting loop. It does not look at \<open>noRepeat\<close>.

  The loop is \<open>for (int i = 1; i <= N; i++) pool.push_back(i)\<close>, and \<open>i\<close> and \<open>N\<close>
  are 32-bit \<open>int\<close>s. When \<open>i\<close> is the largest \<open>int\<close> and the loop goes on (which
  needs \<open>N\<close> to be the largest \<open>int\<close> too), the step \<open>i++\<close> overflows: the behaviour
  of the program is undefined from there, and on a machine that wraps around the loop
  does not end. The model returns \<open>None\<close> in that case: the operation does not come
  back to the menu. For every smaller \<open>N\<close> the loop ends with \<open>Some\<close> pool.
\<close>

definition INT_MAX :: int where
  "INT_MAX = 2147483647"

function fill_loop :: "int \<Rightarrow> int \<Rightarrow> int list \<Rightarrow> int list option" where
  "fill_loop n i p =
     (if i \<le> n
      then (if i = INT_MAX then None else fill_loop n (i + 1) (p @ [i]))
      else Some p)"
  by pat_completeness auto
termination
  by (relation "measure (\<lambda>(n, i, p). nat (n + 1 - i))") auto

declare fill_loop.simps [simp del]

definition reset_pool :: "range_store \<Rightarrow> range_store option" where
  "reset_pool s =
     (let s1 = s\<lparr>npool := []\<rparr>;
          s2 = s1\<lparr>nhistory := []\<rparr>
      in if N s2 \<le> 0 then Some s2
         else (case fill_loop (N s2) 1 (npool s2) of
                 None \<Rightarrow> None
               | Some p \<Rightarrow> Some (s2\<lparr>npool := p\<rparr>)))"

text \<open>
  Operation 1 reads \<open>N\<close>; the argument \<open>n\<close> is the \<open>int\<close> that \<open>cin >> N\<close> stored.
  A value that is not positive is refused: the message is printed, \<open>N\<close> becomes 0 and
  both vectors are cleared. Otherwise \<open>reset_pool\<close> runs, and the operation reports the
  new \<open>N\<close> when \<open>reset_pool\<close> has come back.
\<close>

definition op_set_N :: "int \<Rightarrow> range_store \<Rightarrow> (report \<times> range_store) option" where
  "op_set_N n s =
     (let s1 = s\<lparr>N := n\<rparr>
      in if N s1 \<le> 0 then Some (DomainError, s1\<lparr>N := 0, npool := [], nhistory := []\<rparr>)
         else (case reset_pool s1 of
                 None \<Rightarrow> None
               | Some s2 \<Rightarrow> Some (NSet (N s2), s2)))"

text \<open>Operation 2: \<open>noRepeat = !noRepeat; if (noRepeat) reset_pool();\<close>\<close>

definition op_toggle :: "range_store \<Rightarrow> (report \<times> range_store) option" where
  "op_toggle s =
     (let s1 = s\<lparr>noRepeat := \<not> noRepeat s\<rparr>
      in if noRepeat s1
         then (case reset_pool s1 of
                 None \<Rightarrow> None
               | Some s2 \<Rightarrow> Some (Toggled (noRepeat s2), s2))
         else Some (Toggled (noRepeat s1), s1))"

text \<open>
  Operation 3 draws one number. Without \<open>N\<close> it reports that. With \<open>noRepeat\<close> and an
  empty pool it reports that; otherwise it runs the animation over \<open>1 .. N\<close>, drops
  what the animation returns, takes an index into the pool from a fresh distribution
  over \<open>0 .. size - 1\<close>, erases the number at the index and pushes it to the history.
  Without \<open>noRepeat\<close> the number that the animation returns is pushed to the history.
\<close>

definition op_draw_range :: "'g sampler \<Rightarrow> range_store \<Rightarrow> 'g \<Rightarrow> report \<times> range_store \<times> 'g" where
  "op_draw_range uniform s rng =
     (if N s \<le> 0 then (NotConfigured, s, rng)
      else if noRepeat s then
        (if npool s = [] then (EmptyPool, s, rng)
         else
           (let (shown, rng1) = animated_pick_number uniform (N s) rng;
                (idx, rng2) = uniform 0 (int (length (npool s)) - 1) rng1
            in if idx < 0 \<or> int (length (npool s)) \<le> idx then (Undefined, s, rng2)
               else
                 (let result = npool s ! nat idx;
                      s1 = s\<lparr>npool := erase_at (nat idx) (npool s)\<rparr>;
                      s2 = s1\<lparr>nhistory := nhistory s1 @ [result]\<rparr>
                  in (Number result, s2, rng2))))
      else
        (let (result, rng1) = animated_pick_number uniform (N s) rng
         in (Number result, s\<lparr>nhistory := nhistory s @ [result]\<rparr>, rng1)))"

text \<open>Operation 5 calls \<open>reset_pool\<close>.\<close>

definition op_reset_range :: "range_store \<Rightarrow> (report \<times> range_store) option" where
  "op_reset_range s =
     (case reset_pool s of
        None \<Rightarrow> None
      | Some s1 \<Rightarrow> Some (ResetDone (length (npool s1)), s1))"

text \<open>
  One turn of the menu loop of \<open>mode_range_draw\<close>, and a session. A turn whose
  operation does not come back to the menu is \<open>None\<close>, and so is a session with such a
  turn.
\<close>

datatype range_cmd =
    SetN int
  | ToggleNoRepeat
  | DrawNumber
  | ViewHistory
  | ResetRange
  | OtherChoice

fun mode_range_step ::
  "'g sampler \<Rightarrow> range_cmd \<Rightarrow> range_store \<times> 'g \<Rightarrow> (report \<times> range_store \<times> 'g) option" where
  "mode_range_step uniform (SetN n) (s, rng) =
     (case op_set_N n s of None \<Rightarrow> None | Some (r, s1) \<Rightarrow> Some (r, s1, rng))"
| "mode_range_step uniform ToggleNoRepeat (s, rng) =
     (case op_toggle s of None \<Rightarrow> None | Some (r, s1) \<Rightarrow> Some (r, s1, rng))"
| "mode_range_step uniform DrawNumber (s, rng) = Some (op_draw_range uniform s rng)"
| "mode_range_step uniform ViewHistory (s, rng) = Some (Shown, s, rng)"
| "mode_range_step uniform ResetRange (s, rng) =
     (case op_reset_range s of None \<Rightarrow> None | Some (r, s1) \<Rightarrow> Some (r, s1, rng))"
| "mode_range_step uniform OtherChoice (s, rng) = Some (InvalidOption, s, rng)"

fun mode_range_run ::
  "'g sampler \<Rightarrow> range_cmd list \<Rightarrow> range_store \<times> 'g
     \<Rightarrow> (report list \<times> range_store \<times> 'g) option" where
  "mode_range_run uniform [] st = Some ([], st)"
| "mode_range_run uniform (c # cs) st =
     (case mode_range_step uniform c st of
        None \<Rightarrow> None
      | Some (r, st1) \<Rightarrow>
          (case mode_range_run uniform cs st1 of
             None \<Rightarrow> None
           | Some (rs, st2) \<Rightarrow> Some (r # rs, st2)))"

text \<open>
  The commands whose operation can count its pool: every \<open>N\<close> entered is below the
  largest \<open>int\<close>. (A statement about a session, not code of the program.)
\<close>

fun countable_cmd :: "range_cmd \<Rightarrow> bool" where
  "countable_cmd (SetN n) = (n < INT_MAX)"
| "countable_cmd c = True"

section \<open>Invariants of the two stores\<close>

text \<open>
  The properties that the proofs carry along a session. They are statements about a
  store, not code of the program. For the roster: no list holds a name twice, no name is
  both in the pool and in the history, and the two together hold the names of \<open>all\<close>.
  For the range store, when no-repeat is on: no number is twice in the pool or twice in
  the history, none is in both, and the two together hold the numbers \<open>1, ..., N\<close>.
\<close>

definition roster_inv :: "roster \<Rightarrow> bool" where
  "roster_inv s =
     (distinct (all s) \<and> distinct (pool s) \<and> distinct (history s) \<and>
      set (pool s) \<inter> set (history s) = {} \<and>
      set (pool s) \<union> set (history s) = set (all s))"

definition range_inv :: "range_store \<Rightarrow> bool" where
  "range_inv s =
     (noRepeat s \<longrightarrow>
        distinct (npool s) \<and> distinct (nhistory s) \<and>
        set (npool s) \<inter> set (nhistory s) = {} \<and>
        set (npool s) \<union> set (nhistory s) = {1..N s})"

section \<open>Auxiliary facts\<close>

lemma fill_loop_upto: "n < INT_MAX \<Longrightarrow> fill_loop n i p = Some (p @ [i..n])"
proof (induction n i p rule: fill_loop.induct)
  case (1 n i p)
  show ?case
  proof (cases "i \<le> n")
    case True
    then have ne: "i \<noteq> INT_MAX" using "1.prems" by simp
    have "fill_loop n i p = fill_loop n (i + 1) (p @ [i])"
      using True ne by (subst fill_loop.simps) simp
    also have "\<dots> = Some ((p @ [i]) @ [i + 1..n])" using True ne "1.prems" by (rule "1.IH")
    also have "(p @ [i]) @ [i + 1..n] = p @ [i..n]" using True by (simp add: upto_rec1)
    finally show ?thesis .
  next
    case False
    then show ?thesis by (subst fill_loop.simps) simp
  qed
qed

lemma fill_loop_overflow: "INT_MAX \<le> n \<Longrightarrow> i \<le> INT_MAX \<Longrightarrow> fill_loop n i p = None"
proof (induction n i p rule: fill_loop.induct)
  case (1 n i p)
  have le: "i \<le> n" using "1.prems" by simp
  show ?case
  proof (cases "i = INT_MAX")
    case True
    then show ?thesis using le by (subst fill_loop.simps) simp
  next
    case False
    then have "i + 1 \<le> INT_MAX" using "1.prems"(2) by simp
    with le False "1.prems"(1) have "fill_loop n (i + 1) (p @ [i]) = None" by (rule "1.IH")
    then show ?thesis using le False by (subst fill_loop.simps) simp
  qed
qed

lemma reset_pool_some:
  "N s < INT_MAX \<Longrightarrow> reset_pool s = Some (s\<lparr>npool := [1..N s], nhistory := []\<rparr>)"
  by (simp add: reset_pool_def Let_def fill_loop_upto)

lemma reset_pool_overflow: "INT_MAX \<le> N s \<Longrightarrow> reset_pool s = None"
proof -
  assume a: "INT_MAX \<le> N s"
  then have "0 < N s" by (simp add: INT_MAX_def)
  moreover have "fill_loop (N s) 1 [] = None"
    using a by (rule fill_loop_overflow) (simp add: INT_MAX_def)
  ultimately show ?thesis by (simp add: reset_pool_def Let_def)
qed

lemma reset_pool_result:
  assumes "reset_pool s = Some s'"
  shows "N s < INT_MAX \<and> s' = s\<lparr>npool := [1..N s], nhistory := []\<rparr>"
proof (cases "N s < INT_MAX")
  case True
  then show ?thesis using assms by (simp add: reset_pool_some)
next
  case False
  then have "reset_pool s = None" by (simp add: reset_pool_overflow)
  then show ?thesis using assms by simp
qed

lemma op_set_N_overflow: "INT_MAX \<le> n \<Longrightarrow> op_set_N n s = None"
proof -
  assume a: "INT_MAX \<le> n"
  then have "0 < n" by (simp add: INT_MAX_def)
  moreover have "reset_pool (s\<lparr>N := n\<rparr>) = None" using a by (simp add: reset_pool_overflow)
  ultimately show ?thesis by (simp add: op_set_N_def Let_def)
qed

lemma scripted_ok: "sampler_ok scripted"
  by (simp add: sampler_ok_def scripted_def split: list.split)

lemma sampler_okD:
  "sampler_ok u \<Longrightarrow> lo \<le> hi \<Longrightarrow> u lo hi g = (x, g') \<Longrightarrow> lo \<le> x \<and> x \<le> hi"
  unfolding sampler_ok_def by (metis fst_conv)

lemma pick_index_loop_consume:
  "pick_index_loop u hi i g = consume u 0 hi (nat (26 - i)) g"
proof (induction u hi i g rule: pick_index_loop.induct)
  case (1 u hi i g)
  show ?case
  proof (cases "i < 26")
    case True
    then have "pick_index_loop u hi i g = pick_index_loop u hi (i + 1) (snd (u 0 hi g))"
      by (subst pick_index_loop.simps) simp
    also have "\<dots> = consume u 0 hi (nat (26 - (i + 1))) (snd (u 0 hi g))"
      using True by (rule "1.IH")
    also have "\<dots> = consume u 0 hi (Suc (nat (26 - (i + 1)))) g" by simp
    also have "Suc (nat (26 - (i + 1))) = nat (26 - i)" using True by simp
    finally show ?thesis .
  next
    case False
    then show ?thesis by (subst pick_index_loop.simps) simp
  qed
qed

lemma pick_number_loop_consume:
  "pick_number_loop u n i g = consume u 1 n (nat (32 - i)) g"
proof (induction u n i g rule: pick_number_loop.induct)
  case (1 u n i g)
  show ?case
  proof (cases "i < 32")
    case True
    then have "pick_number_loop u n i g = pick_number_loop u n (i + 1) (snd (u 1 n g))"
      by (subst pick_number_loop.simps) simp
    also have "\<dots> = consume u 1 n (nat (32 - (i + 1))) (snd (u 1 n g))"
      using True by (rule "1.IH")
    also have "\<dots> = consume u 1 n (Suc (nat (32 - (i + 1)))) g" by simp
    also have "Suc (nat (32 - (i + 1))) = nat (32 - i)" using True by simp
    finally show ?thesis .
  next
    case False
    then show ?thesis by (subst pick_number_loop.simps) simp
  qed
qed

lemma consume_Suc_end:
  "consume u lo hi (Suc k) g = snd (u lo hi (consume u lo hi k g))"
  by (induction k arbitrary: g) simp_all

lemma animated_pick_index_eq:
  "animated_pick_index u p g
     = u 0 (int (length p) - 1) (consume u 0 (int (length p) - 1) 26 g)"
  by (simp add: animated_pick_index_def Let_def pick_index_loop_consume)

lemma animated_pick_number_eq:
  "animated_pick_number u n g = u 1 n (consume u 1 n 32 g)"
  by (simp add: animated_pick_number_def pick_number_loop_consume)

lemma erase_at_take_drop: "erase_at i xs = take i xs @ drop (Suc i) xs"
  by (induction i xs rule: erase_at.induct) simp_all

lemma length_erase_at: "i < length xs \<Longrightarrow> length (erase_at i xs) = length xs - 1"
  by (induction i xs rule: erase_at.induct) auto

lemma set_erase_at_distinct:
  "distinct xs \<Longrightarrow> i < length xs \<Longrightarrow> set (erase_at i xs) = set xs - {xs ! i}"
proof (induction i xs rule: erase_at.induct)
  case (1 i)
  then show ?case by simp
next
  case (2 x xs)
  then show ?case by simp
next
  case (3 i x xs)
  then have i: "i < length xs" and d: "distinct xs" and x: "x \<notin> set xs" by simp_all
  have ih: "set (erase_at i xs) = set xs - {xs ! i}" using "3.IH" d i by simp
  have "xs ! i \<in> set xs" using i by simp
  then have ne: "x \<noteq> xs ! i" using x by blast
  have "set (erase_at (Suc i) (x # xs)) = insert x (set xs - {xs ! i})" using ih by simp
  also have "\<dots> = set (x # xs) - {(x # xs) ! Suc i}" using ne by auto
  finally show ?case .
qed

lemma set_erase_at_subset: "set (erase_at i xs) \<subseteq> set xs"
  by (induction i xs rule: erase_at.induct) auto

lemma distinct_erase_at: "distinct xs \<Longrightarrow> distinct (erase_at i xs)"
proof (induction i xs rule: erase_at.induct)
  case (3 i x xs)
  have "set (erase_at i xs) \<subseteq> set xs" by (rule set_erase_at_subset)
  with 3 show ?case by auto
qed simp_all

lemma animated_pick_index_range:
  assumes "sampler_ok u" "p \<noteq> []"
  shows "0 \<le> fst (animated_pick_index u p g) \<and>
         fst (animated_pick_index u p g) < int (length p)"
proof -
  have le: "(0::int) \<le> int (length p) - 1" using assms(2) by (cases p) simp_all
  obtain x g1 where e: "animated_pick_index u p g = (x, g1)"
    by (cases "animated_pick_index u p g")
  then have "u 0 (int (length p) - 1) (consume u 0 (int (length p) - 1) 26 g) = (x, g1)"
    by (simp only: animated_pick_index_eq)
  from sampler_okD [OF assms(1) le this] have "0 \<le> x \<and> x \<le> int (length p) - 1" .
  then show ?thesis using e by simp
qed

lemma op_draw_success:
  assumes "sampler_ok u" "pool s \<noteq> []"
  shows "op_draw u s g =
     (Winner (pool s ! nat (fst (animated_pick_index u (pool s) g))) (length (pool s) - 1),
      s\<lparr>pool := erase_at (nat (fst (animated_pick_index u (pool s) g))) (pool s),
        history := history s @ [pool s ! nat (fst (animated_pick_index u (pool s) g))]\<rparr>,
      snd (animated_pick_index u (pool s) g))"
proof -
  obtain idx g1 where a: "animated_pick_index u (pool s) g = (idx, g1)" by (cases "animated_pick_index u (pool s) g")
  from animated_pick_index_range [OF assms, of g] a
  have r: "0 \<le> idx" "idx < int (length (pool s))" by simp_all
  then have "nat idx < length (pool s)" by simp
  then show ?thesis using assms(2) a r
    by (simp add: op_draw_def Let_def length_erase_at)
qed

lemma op_draw_range_success:
  assumes "sampler_ok u" "0 < N s" "noRepeat s" "npool s \<noteq> []"
    and "rng1 = consume u 1 (N s) 33 g"
    and "idx = fst (u 0 (int (length (npool s)) - 1) rng1)"
  shows "0 \<le> idx \<and> idx < int (length (npool s)) \<and>
     op_draw_range u s g =
       (Number (npool s ! nat idx),
        s\<lparr>npool := erase_at (nat idx) (npool s), nhistory := nhistory s @ [npool s ! nat idx]\<rparr>,
        snd (u 0 (int (length (npool s)) - 1) rng1))"
proof -
  have le: "(0::int) \<le> int (length (npool s)) - 1" using assms(4) by (cases "npool s") simp_all
  have a: "snd (animated_pick_number u (N s) g) = rng1"
    unfolding assms(5) animated_pick_number_eq by (simp add: consume_Suc_end numeral_eq_Suc)
  obtain x g2 where e: "u 0 (int (length (npool s)) - 1) rng1 = (x, g2)"
    by (cases "u 0 (int (length (npool s)) - 1) rng1")
  from sampler_okD [OF assms(1) le e] have r: "0 \<le> x" "x < int (length (npool s))" by simp_all
  have x: "idx = x" using e assms(6) by simp
  obtain y where f: "animated_pick_number u (N s) g = (y, rng1)"
    using a by (cases "animated_pick_number u (N s) g") simp
  show ?thesis using assms(2,3,4) r e f x
    by (simp add: op_draw_range_def Let_def)
qed

lemma op_draw_range_repeat:
  assumes "sampler_ok u" "0 < N s" "\<not> noRepeat s"
  shows "1 \<le> fst (animated_pick_number u (N s) g) \<and> fst (animated_pick_number u (N s) g) \<le> N s \<and>
     op_draw_range u s g =
       (Number (fst (animated_pick_number u (N s) g)),
        s\<lparr>nhistory := nhistory s @ [fst (animated_pick_number u (N s) g)]\<rparr>,
        snd (animated_pick_number u (N s) g))"
proof -
  obtain y g1 where f: "animated_pick_number u (N s) g = (y, g1)"
    by (cases "animated_pick_number u (N s) g")
  then have "u 1 (N s) (consume u 1 (N s) 32 g) = (y, g1)" by (simp only: animated_pick_number_eq)
  from sampler_okD [OF assms(1) _ this] assms(2) have "1 \<le> y \<and> y \<le> N s" by simp
  then show ?thesis using assms(2,3) f by (simp add: op_draw_range_def Let_def)
qed

lemma save_loop_rows:
  "save_loop h i fout =
     fout @ concat (map (\<lambda>j. show_nat (j + 1) @ '','' @ h ! j @ [CHR 0x0A]) [i..<length h])"
proof (induction h i fout rule: save_loop.induct)
  case (1 h i fout)
  show ?case
  proof (cases "i < length h")
    case True
    then have "save_loop h i fout
        = save_loop h (i + 1) (fout @ show_nat (i + 1) @ '','' @ h ! i @ [CHR 0x0A])"
      by (subst save_loop.simps) simp
    also have "\<dots> = (fout @ show_nat (i + 1) @ '','' @ h ! i @ [CHR 0x0A]) @
        concat (map (\<lambda>j. show_nat (j + 1) @ '','' @ h ! j @ [CHR 0x0A]) [i + 1..<length h])"
      using True by (rule "1.IH")
    also have "\<dots> = fout @
        concat (map (\<lambda>j. show_nat (j + 1) @ '','' @ h ! j @ [CHR 0x0A]) [i..<length h])"
      using True by (simp add: upt_conv_Cons)
    finally show ?thesis .
  next
    case False
    then show ?thesis by (subst save_loop.simps) simp
  qed
qed

lemma show_nat_examples:
  "show_nat 7 = ''7''" "show_nat 10 = ''10''" "show_nat 305 = ''305''"
  by code_simp+

lemma show_nat_1: "show_nat (Suc 0) = ''1''" by code_simp
lemma show_nat_2: "show_nat (Suc (Suc 0)) = ''2''" by code_simp

lemma seen_iff: "seen x out \<longleftrightarrow> x \<in> set out"
  by (induction out) auto

lemma dedup_loop_append: "dedup_loop (a @ b) out = dedup_loop b (dedup_loop a out)"
  by (induction a arbitrary: out) simp_all

lemma dedup_loop_distinct_id: "distinct (out @ d) \<Longrightarrow> dedup_loop d out = out @ d"
proof (induction d arbitrary: out)
  case Nil
  then show ?case by simp
next
  case (Cons x d)
  then have "x \<notin> set out" and "distinct ((out @ [x]) @ d)" by simp_all
  then show ?case using Cons.IH [of "out @ [x]"] by (simp add: seen_iff)
qed

lemma dedup_loop_subset_id: "set v \<subseteq> set out \<Longrightarrow> dedup_loop v out = out"
  by (induction v) (simp_all add: seen_iff)

lemma set_dedup_loop: "set (dedup_loop v out) = set out \<union> set v"
  by (induction v arbitrary: out) (auto simp add: seen_iff)

lemma distinct_dedup_loop: "distinct out \<Longrightarrow> distinct (dedup_loop v out)"
  by (induction v arbitrary: out) (simp_all add: seen_iff)

lemma dedup_twice:
  "dedup_preserve_order (dedup_preserve_order (a @ x) @ x) = dedup_preserve_order (a @ x)"
proof -
  let ?d = "dedup_loop (a @ x) []"
  have d: "distinct ([] @ ?d)" by (simp add: distinct_dedup_loop)
  have "dedup_loop (?d @ x) [] = dedup_loop x (dedup_loop ?d [])" by (rule dedup_loop_append)
  also have "dedup_loop ?d [] = [] @ ?d" using d by (rule dedup_loop_distinct_id)
  also have "dedup_loop x ([] @ ?d) = ?d"
    by (simp add: dedup_loop_subset_id set_dedup_loop)
  finally show ?thesis by (simp add: dedup_preserve_order_def)
qed

lemma input_loop_eq:
  "input_loop ls s added =
     (s\<lparr>all := all s @ takeWhile (\<lambda>l. l \<noteq> []) (map trim ls),
        pool := pool s @ takeWhile (\<lambda>l. l \<noteq> []) (map trim ls)\<rparr>,
      added + length (takeWhile (\<lambda>l. l \<noteq> []) (map trim ls)))"
  by (induction ls arbitrary: s added) (simp_all add: Let_def)

lemma load_loop_eq:
  "load_loop ls s added =
     (s\<lparr>all := all s @ filter (\<lambda>l. l \<noteq> []) (map trim ls),
        pool := pool s @ filter (\<lambda>l. l \<noteq> []) (map trim ls)\<rparr>,
      added + length (filter (\<lambda>l. l \<noteq> []) (map trim ls)))"
  by (induction ls arbitrary: s added) (simp_all add: Let_def)

lemma op_manual_input_eq:
  "snd (op_manual_input ls s) =
     s\<lparr>all := dedup_preserve_order (all s @ takeWhile (\<lambda>l. l \<noteq> []) (map trim ls)),
       pool := dedup_preserve_order (pool s @ takeWhile (\<lambda>l. l \<noteq> []) (map trim ls))\<rparr>"
  by (simp add: op_manual_input_def input_loop_eq Let_def)

lemma op_load_file_eq:
  "files fs f = Some c \<Longrightarrow> snd (op_load_file f fs s) =
     s\<lparr>all := dedup_preserve_order (all s @ filter (\<lambda>l. l \<noteq> []) (map trim (getlines c))),
       pool := dedup_preserve_order (pool s @ filter (\<lambda>l. l \<noteq> []) (map trim (getlines c)))\<rparr>"
  by (simp add: op_load_file_def load_loop_eq Let_def)

lemma op_load_file_none: "files fs f = None \<Longrightarrow> snd (op_load_file f fs s) = s"
  by (simp add: op_load_file_def)

lemma roster_inv_length:
  assumes "roster_inv s"
  shows "length (all s) = length (pool s) + length (history s)"
proof -
  from assms have d: "distinct (pool s @ history s)" and e: "set (pool s @ history s) = set (all s)"
    and a: "distinct (all s)"
    by (simp_all add: roster_inv_def)
  have "length (pool s @ history s) = card (set (pool s @ history s))"
    using d by (rule distinct_card [symmetric])
  also have "\<dots> = card (set (all s))" using e by simp
  also have "\<dots> = length (all s)" using a by (rule distinct_card)
  finally show ?thesis by simp
qed

lemma dedup_distinct_id: "distinct v \<Longrightarrow> dedup_preserve_order v = v"
  using dedup_loop_distinct_id [of "[]" v] by (simp add: dedup_preserve_order_def)

lemma set_dedup: "set (dedup_preserve_order v) = set v"
  by (simp add: dedup_preserve_order_def set_dedup_loop)

lemma distinct_dedup: "distinct (dedup_preserve_order v)"
  by (simp add: dedup_preserve_order_def distinct_dedup_loop)

lemma roster_inv_add:
  assumes inv: "roster_inv s" and new: "set ys \<inter> set (history s) = {}"
  shows "roster_inv (s\<lparr>all := dedup_preserve_order (all s @ ys),
                        pool := dedup_preserve_order (pool s @ ys)\<rparr>)"
proof -
  from inv have dj: "set (pool s) \<inter> set (history s) = {}"
    and un: "set (pool s) \<union> set (history s) = set (all s)"
    and dh: "distinct (history s)"
    by (simp_all add: roster_inv_def)
  have 1: "(set (pool s) \<union> set ys) \<inter> set (history s) = {}" using dj new by blast
  have 2: "(set (pool s) \<union> set ys) \<union> set (history s) = set (all s) \<union> set ys"
    using un by blast
  show ?thesis using dh 1 2 by (simp add: roster_inv_def set_dedup distinct_dedup)
qed

lemma roster_inv_manual_input:
  assumes "roster_inv s" "set (map trim ls) \<inter> set (history s) = {}"
  shows "roster_inv (snd (op_manual_input ls s))"
proof -
  have "set (takeWhile (\<lambda>l. l \<noteq> []) (map trim ls)) \<subseteq> set (map trim ls)"
    by (auto dest: set_takeWhileD)
  then have "set (takeWhile (\<lambda>l. l \<noteq> []) (map trim ls)) \<inter> set (history s) = {}"
    using assms(2) by blast
  from roster_inv_add [OF assms(1) this] show ?thesis by (simp add: op_manual_input_eq)
qed

lemma roster_inv_load_file:
  assumes "roster_inv s"
    and "\<And>c. files fs f = Some c \<Longrightarrow> set (map trim (getlines c)) \<inter> set (history s) = {}"
  shows "roster_inv (snd (op_load_file f fs s))"
proof (cases "files fs f")
  case None
  then show ?thesis using assms(1) by (simp add: op_load_file_none)
next
  case (Some c)
  have "set (filter (\<lambda>l. l \<noteq> []) (map trim (getlines c))) \<subseteq> set (map trim (getlines c))"
    by (rule filter_is_subset)
  then have "set (filter (\<lambda>l. l \<noteq> []) (map trim (getlines c))) \<inter> set (history s) = {}"
    using assms(2) [OF Some] by blast
  from roster_inv_add [OF assms(1) this] show ?thesis using Some by (simp add: op_load_file_eq)
qed

lemma roster_inv_draw:
  assumes ok: "sampler_ok u" and inv: "roster_inv s"
  shows "roster_inv (fst (snd (op_draw u s g)))"
proof (cases "pool s = []")
  case True
  then show ?thesis using inv by (simp add: op_draw_def)
next
  case False
  let ?k = "nat (fst (animated_pick_index u (pool s) g))"
  from animated_pick_index_range [OF ok False, of g] have k: "?k < length (pool s)" by linarith
  from inv have d: "distinct (pool s)" "distinct (history s)" "distinct (all s)"
    and dj: "set (pool s) \<inter> set (history s) = {}"
    and un: "set (pool s) \<union> set (history s) = set (all s)"
    by (simp_all add: roster_inv_def)
  have m: "pool s ! ?k \<in> set (pool s)" using k by simp
  then have nh: "pool s ! ?k \<notin> set (history s)" using dj by blast
  have e: "set (erase_at ?k (pool s)) = set (pool s) - {pool s ! ?k}"
    using d(1) k by (rule set_erase_at_distinct)
  have 1: "distinct (erase_at ?k (pool s))" using d(1) by (rule distinct_erase_at)
  have 2: "distinct (history s @ [pool s ! ?k])" using d(2) nh by simp
  have 3: "set (erase_at ?k (pool s)) \<inter> set (history s @ [pool s ! ?k]) = {}"
    using e dj by auto
  have "set (erase_at ?k (pool s)) \<union> set (history s @ [pool s ! ?k])
      = set (pool s) \<union> set (history s)"
    using e m by auto
  then have 4: "set (erase_at ?k (pool s)) \<union> set (history s @ [pool s ! ?k]) = set (all s)"
    using un by simp
  have "roster_inv (s\<lparr>pool := erase_at ?k (pool s), history := history s @ [pool s ! ?k]\<rparr>)"
    using 1 2 3 4 d(3) by (simp add: roster_inv_def)
  then show ?thesis using op_draw_success [OF ok False, of g] by simp
qed

lemma roster_inv_reset: "roster_inv s \<Longrightarrow> roster_inv (snd (op_reset s))"
  by (simp add: roster_inv_def op_reset_def Let_def)

lemma roster_inv_init: "roster_inv roster_init"
  by (simp add: roster_inv_def roster_init_def)

lemma range_inv_reset_pool: "reset_pool s = Some s' \<Longrightarrow> range_inv s'"
  by (drule reset_pool_result) (simp add: range_inv_def)

lemma range_inv_erase:
  assumes inv: "range_inv s" and nr: "noRepeat s" and k: "k < length (npool s)"
  shows "range_inv (s\<lparr>npool := erase_at k (npool s), nhistory := nhistory s @ [npool s ! k]\<rparr>)"
proof -
  from inv nr have d: "distinct (npool s)" "distinct (nhistory s)"
    and dj: "set (npool s) \<inter> set (nhistory s) = {}"
    and un: "set (npool s) \<union> set (nhistory s) = {1..N s}"
    by (simp_all add: range_inv_def)
  have m: "npool s ! k \<in> set (npool s)" using k by simp
  then have nh: "npool s ! k \<notin> set (nhistory s)" using dj by blast
  have e: "set (erase_at k (npool s)) = set (npool s) - {npool s ! k}"
    using d(1) k by (rule set_erase_at_distinct)
  have 1: "distinct (erase_at k (npool s))" using d(1) by (rule distinct_erase_at)
  have 2: "distinct (nhistory s @ [npool s ! k])" using d(2) nh by simp
  have 3: "set (erase_at k (npool s)) \<inter> set (nhistory s @ [npool s ! k]) = {}"
    using e dj by auto
  have "set (erase_at k (npool s)) \<union> set (nhistory s @ [npool s ! k])
      = set (npool s) \<union> set (nhistory s)"
    using e m by auto
  then have 4: "set (erase_at k (npool s)) \<union> set (nhistory s @ [npool s ! k]) = {1..N s}"
    using un by simp
  show ?thesis using 1 2 3 4 by (simp add: range_inv_def)
qed

lemma op_draw_range_inv:
  assumes ok: "sampler_ok u" and inv: "range_inv s"
  shows "range_inv (fst (snd (op_draw_range u s g))) \<and> fst (op_draw_range u s g) \<noteq> Undefined"
proof -
  consider (a) "N s \<le> 0" | (b) "0 < N s" "noRepeat s" "npool s = []"
    | (c) "0 < N s" "noRepeat s" "npool s \<noteq> []" | (d) "0 < N s" "\<not> noRepeat s"
    by fastforce
  then show ?thesis
  proof cases
    case a
    then show ?thesis using inv by (simp add: op_draw_range_def)
  next
    case b
    then show ?thesis using inv by (simp add: op_draw_range_def)
  next
    case c
    let ?k = "fst (u 0 (int (length (npool s)) - 1) (consume u 1 (N s) 33 g))"
    note r = op_draw_range_success [OF ok c refl refl, of g]
    then have k: "nat ?k < length (npool s)" by linarith
    have "range_inv (s\<lparr>npool := erase_at (nat ?k) (npool s),
        nhistory := nhistory s @ [npool s ! nat ?k]\<rparr>)"
      using inv c(2) k by (rule range_inv_erase)
    then show ?thesis using r by simp
  next
    case d
    note r = op_draw_range_repeat [OF ok d, of g]
    have "range_inv (s\<lparr>nhistory := nhistory s @ [fst (animated_pick_number u (N s) g)]\<rparr>)"
      using d(2) by (simp add: range_inv_def)
    then show ?thesis using r by simp
  qed
qed

lemma mode_range_step_inv:
  assumes ok: "sampler_ok u" and inv: "range_inv s"
    and st: "mode_range_step u c (s, g) = Some (r, s', g')"
  shows "range_inv s' \<and> r \<noteq> Undefined"
proof (cases c)
  case (SetN n)
  show ?thesis
  proof (cases "n \<le> 0")
    case True
    then show ?thesis using SetN st by (auto simp add: op_set_N_def range_inv_def)
  next
    case False
    then show ?thesis using SetN st
      by (auto simp add: op_set_N_def Let_def split: option.splits dest: range_inv_reset_pool)
  qed
next
  case ToggleNoRepeat
  show ?thesis
  proof (cases "noRepeat s")
    case True
    then show ?thesis using ToggleNoRepeat st
      by (auto simp add: op_toggle_def Let_def range_inv_def)
  next
    case False
    then show ?thesis using ToggleNoRepeat st
      by (auto simp add: op_toggle_def Let_def split: option.splits dest: range_inv_reset_pool)
  qed
next
  case DrawNumber
  then show ?thesis using op_draw_range_inv [OF ok inv, of g] st by auto
next
  case ViewHistory
  then show ?thesis using inv st by auto
next
  case ResetRange
  then show ?thesis using st
    by (auto simp add: op_reset_range_def split: option.splits dest: range_inv_reset_pool)
next
  case OtherChoice
  then show ?thesis using inv st by auto
qed

lemma mode_range_run_inv:
  "sampler_ok u \<Longrightarrow> range_inv s \<Longrightarrow> mode_range_run u cs (s, g) = Some (rs, s', g') \<Longrightarrow>
     range_inv s' \<and> Undefined \<notin> set rs"
proof (induction cs arbitrary: s g rs)
  case Nil
  then show ?case by simp
next
  case (Cons c cs)
  from Cons.prems(3) obtain r s1 g1 rs1 where
    st: "mode_range_step u c (s, g) = Some (r, s1, g1)"
    and run: "mode_range_run u cs (s1, g1) = Some (rs1, s', g')"
    and rs: "rs = r # rs1"
    by (auto split: option.splits)
  from mode_range_step_inv [OF Cons.prems(1,2) st]
  have i1: "range_inv s1" and r: "r \<noteq> Undefined" by simp_all
  from Cons.IH [OF Cons.prems(1) i1 run] show ?case using rs r by auto
qed

lemma mode_range_step_returns:
  assumes "countable_cmd c" "N s < INT_MAX"
  shows "\<exists>r s' g'. mode_range_step u c (s, g) = Some (r, s', g') \<and> N s' < INT_MAX"
proof (cases c)
  case (SetN n)
  then have n: "n < INT_MAX" using assms(1) by simp
  show ?thesis
  proof (cases "n \<le> 0")
    case True
    then show ?thesis using SetN by (simp add: op_set_N_def INT_MAX_def)
  next
    case False
    then show ?thesis using SetN n by (simp add: op_set_N_def Let_def reset_pool_some)
  qed
next
  case ToggleNoRepeat
  then show ?thesis using assms(2) by (simp add: op_toggle_def Let_def reset_pool_some)
next
  case DrawNumber
  obtain r s1 g1 where d: "op_draw_range u s g = (r, s1, g1)"
    by (cases "op_draw_range u s g") auto
  have "N (fst (snd (op_draw_range u s g))) = N s"
    by (simp add: op_draw_range_def Let_def split: prod.splits)
  then show ?thesis using DrawNumber d assms(2) by simp
next
  case ViewHistory
  then show ?thesis using assms(2) by simp
next
  case ResetRange
  then show ?thesis using assms(2) by (simp add: op_reset_range_def reset_pool_some)
next
  case OtherChoice
  then show ?thesis using assms(2) by simp
qed

lemma mode_range_run_returns:
  "list_all countable_cmd cs \<Longrightarrow> N s < INT_MAX \<Longrightarrow> mode_range_run u cs (s, g) \<noteq> None"
proof (induction cs arbitrary: s g)
  case Nil
  then show ?case by simp
next
  case (Cons c cs)
  then have c: "countable_cmd c" and cs: "list_all countable_cmd cs" by simp_all
  from mode_range_step_returns [OF c Cons.prems(2), of u g] obtain r s1 g1 where
    st: "mode_range_step u c (s, g) = Some (r, s1, g1)" and n: "N s1 < INT_MAX"
    by blast
  from Cons.IH [OF cs n, of g1] show ?case using st by auto
qed

lemma range_inv_init: "range_inv range_init"
  by (simp add: range_inv_def range_init_def)

section \<open>The range store: setting N and switching no-repeat\<close>



text \<open>
  C3, as the specification states it: switching no-repeat from on to off empties the
  history. The program does not do that: with \<open>N = 3\<close>, the pool \<open>[1, 2]\<close> and the
  history \<open>[3]\<close>, the history is still \<open>[3]\<close> after the switch.
\<close>

theorem toggle_off_resets_history_counterexample:
  "noRepeat \<lparr>N = 3, noRepeat = True, npool = [1, 2], nhistory = [3]\<rparr> \<and>
   op_toggle \<lparr>N = 3, noRepeat = True, npool = [1, 2], nhistory = [3]\<rparr>
     = Some (Toggled False, \<lparr>N = 3, noRepeat = False, npool = [1, 2], nhistory = [3]\<rparr>) \<and>
   \<not> noRepeat \<lparr>N = 3, noRepeat = False, npool = [1, 2], nhistory = [3]\<rparr> \<and>
   nhistory \<lparr>N = 3, noRepeat = False, npool = [1, 2], nhistory = [3]\<rparr> \<noteq> []"
  by (simp add: op_toggle_def Let_def)

text \<open>
  C3, amended. Switching no-repeat from on to off changes the flag and nothing else: the
  history, the pool and \<open>N\<close> are what they were. (\<open>reset_pool\<close> runs only when the flag
  becomes true.)
\<close>

theorem toggle_off_keeps_history:
  "noRepeat s \<Longrightarrow>
     op_toggle s = Some (Toggled False, s\<lparr>noRepeat := False\<rparr>) \<and>
     \<not> noRepeat (s\<lparr>noRepeat := False\<rparr>) \<and>
     nhistory (s\<lparr>noRepeat := False\<rparr>) = nhistory s \<and>
     npool (s\<lparr>noRepeat := False\<rparr>) = npool s \<and>
     N (s\<lparr>noRepeat := False\<rparr>) = N s"
  by (simp add: op_toggle_def Let_def)

theorem toggle_off_keeps_history_witness:
  "noRepeat \<lparr>N = 3, noRepeat = True, npool = [1, 2], nhistory = [3]\<rparr> \<and>
   op_toggle \<lparr>N = 3, noRepeat = True, npool = [1, 2], nhistory = [3]\<rparr>
     = Some (Toggled False, \<lparr>N = 3, noRepeat = False, npool = [1, 2], nhistory = [3]\<rparr>)"
  using toggle_off_keeps_history [of "\<lparr>N = 3, noRepeat = True, npool = [1, 2], nhistory = [3]\<rparr>"]
  by simp

section \<open>Drawing\<close>

text \<open>
  C2. Drawing a name (operation 3 of mode A). With an empty pool the draw fails with
  the \<open>EmptyPool\<close> message and nothing changes. Otherwise the index \<open>idx\<close> is a sample
  of \<open>uniform(0, size - 1)\<close> (the one \<open>animated_pick_index\<close> returns) and lies in the
  pool; the winner is the name at \<open>idx\<close>; the new pool is the old one without position
  \<open>idx\<close>, the other names in their old order; the winner is appended to the history;
  \<open>all\<close> is untouched.
\<close>

theorem draw_from_roster:
  "(pool s = [] \<longrightarrow> op_draw u s g = (EmptyPool, s, g)) \<and>
   (pool s \<noteq> [] \<and> sampler_ok u \<and> idx = fst (animated_pick_index u (pool s) g) \<longrightarrow>
      animated_pick_index u (pool s) g
        = u 0 (int (length (pool s)) - 1) (consume u 0 (int (length (pool s)) - 1) 26 g) \<and>
      0 \<le> idx \<and> idx \<le> int (length (pool s)) - 1 \<and>
      fst (op_draw u s g) = Winner (pool s ! nat idx) (length (pool s) - 1) \<and>
      pool (fst (snd (op_draw u s g))) = take (nat idx) (pool s) @ drop (nat idx + 1) (pool s) \<and>
      history (fst (snd (op_draw u s g))) = history s @ [pool s ! nat idx] \<and>
      all (fst (snd (op_draw u s g))) = all s)"
proof (intro conjI impI)
  show "pool s = [] \<Longrightarrow> op_draw u s g = (EmptyPool, s, g)"
    by (simp add: op_draw_def)
next
  assume h: "pool s \<noteq> [] \<and> sampler_ok u \<and> idx = fst (animated_pick_index u (pool s) g)"
  show "animated_pick_index u (pool s) g
        = u 0 (int (length (pool s)) - 1) (consume u 0 (int (length (pool s)) - 1) 26 g)"
    by (rule animated_pick_index_eq)
  from h animated_pick_index_range [of u "pool s" g]
  show "0 \<le> idx" and "idx \<le> int (length (pool s)) - 1" by simp_all
  from h op_draw_success [of u s g]
  show "fst (op_draw u s g) = Winner (pool s ! nat idx) (length (pool s) - 1)"
    and "pool (fst (snd (op_draw u s g))) = take (nat idx) (pool s) @ drop (nat idx + 1) (pool s)"
    and "history (fst (snd (op_draw u s g))) = history s @ [pool s ! nat idx]"
    and "all (fst (snd (op_draw u s g))) = all s"
    by (simp_all add: erase_at_take_drop)
qed

theorem draw_from_roster_witness:
  "op_draw scripted roster_init [] = (EmptyPool, roster_init, []) \<and>
   sampler_ok scripted \<and>
   fst (op_draw scripted
          \<lparr>all = [''Ann'', ''Bob'', ''Cid''], pool = [''Ann'', ''Bob'', ''Cid''], history = []\<rparr>
          (replicate 26 0 @ [1])) = Winner ''Bob'' 2 \<and>
   pool (fst (snd (op_draw scripted
          \<lparr>all = [''Ann'', ''Bob'', ''Cid''], pool = [''Ann'', ''Bob'', ''Cid''], history = []\<rparr>
          (replicate 26 0 @ [1])))) = [''Ann'', ''Cid''] \<and>
   history (fst (snd (op_draw scripted
          \<lparr>all = [''Ann'', ''Bob'', ''Cid''], pool = [''Ann'', ''Bob'', ''Cid''], history = []\<rparr>
          (replicate 26 0 @ [1])))) = [''Bob'']"
proof -
  let ?s = "\<lparr>all = [''Ann'', ''Bob'', ''Cid''], pool = [''Ann'', ''Bob'', ''Cid''], history = []\<rparr>"
  let ?g = "replicate 26 0 @ [1::int]"
  have a: "op_draw scripted roster_init [] = (EmptyPool, roster_init, [])"
    using draw_from_roster [where s = roster_init and u = scripted and g = "[]"]
    by (simp add: roster_init_def)
  have i: "fst (animated_pick_index scripted (pool ?s) ?g) = 1" by code_simp
  have p: "pool ?s \<noteq> []" by simp
  note b = draw_from_roster [where s = ?s and u = scripted and g = ?g and idx = 1,
      THEN conjunct2, rule_format, OF conjI [OF p conjI [OF scripted_ok i [symmetric]]]]
  show ?thesis using a b scripted_ok by simp
qed

text \<open>
  C10. The animation draws from the engine that decides the draw. A draw of a name takes
  26 samples of \<open>uniform(0, size - 1)\<close> for the animation and the 27th is the index of
  the winner; the engine is left after 27 samples. A no-repeat draw of a number takes
  33 samples of \<open>uniform(1, N)\<close> in \<open>animated_pick_number\<close>, none of which is used,
  and then one sample of \<open>uniform(0, size - 1)\<close>, the index of the result.
\<close>

theorem animation_shares_rng:
  "(pool s \<noteq> [] \<and> sampler_ok u \<and> hi = int (length (pool s)) - 1 \<and>
      idx = fst (u 0 hi (consume u 0 hi 26 g)) \<longrightarrow>
      op_draw u s g =
        (Winner (pool s ! nat idx) (length (pool s) - 1),
         s\<lparr>pool := erase_at (nat idx) (pool s), history := history s @ [pool s ! nat idx]\<rparr>,
         consume u 0 hi 27 g)) \<and>
   (0 < N t \<and> noRepeat t \<and> npool t \<noteq> [] \<and> sampler_ok u \<and>
      r = consume u 1 (N t) 33 g \<and> k = fst (u 0 (int (length (npool t)) - 1) r) \<longrightarrow>
      op_draw_range u t g =
        (Number (npool t ! nat k),
         t\<lparr>npool := erase_at (nat k) (npool t), nhistory := nhistory t @ [npool t ! nat k]\<rparr>,
         snd (u 0 (int (length (npool t)) - 1) r)))"
proof (intro conjI impI)
  assume h: "pool s \<noteq> [] \<and> sampler_ok u \<and> hi = int (length (pool s)) - 1 \<and>
      idx = fst (u 0 hi (consume u 0 hi 26 g))"
  then have i: "fst (animated_pick_index u (pool s) g) = idx"
    by (simp add: animated_pick_index_eq)
  have "snd (animated_pick_index u (pool s) g) = consume u 0 hi (Suc 26) g"
    using h by (simp only: animated_pick_index_eq consume_Suc_end)
  then have g: "snd (animated_pick_index u (pool s) g) = consume u 0 hi 27 g" by simp
  from h op_draw_success [of u s g] show "op_draw u s g =
        (Winner (pool s ! nat idx) (length (pool s) - 1),
         s\<lparr>pool := erase_at (nat idx) (pool s), history := history s @ [pool s ! nat idx]\<rparr>,
         consume u 0 hi 27 g)"
    by (simp add: i g)
next
  assume h: "0 < N t \<and> noRepeat t \<and> npool t \<noteq> [] \<and> sampler_ok u \<and>
      r = consume u 1 (N t) 33 g \<and> k = fst (u 0 (int (length (npool t)) - 1) r)"
  then show "op_draw_range u t g =
        (Number (npool t ! nat k),
         t\<lparr>npool := erase_at (nat k) (npool t), nhistory := nhistory t @ [npool t ! nat k]\<rparr>,
         snd (u 0 (int (length (npool t)) - 1) r))"
    using op_draw_range_success [of u t r g k] by simp
qed

theorem animation_shares_rng_witness:
  "sampler_ok scripted \<and>
   fst (scripted 0 1 (replicate 26 0 @ [1, 0])) = 0 \<and>
   op_draw scripted \<lparr>all = [''Ann'', ''Bob''], pool = [''Ann'', ''Bob''], history = []\<rparr>
       (replicate 26 0 @ [1, 0])
     = (Winner ''Bob'' 1, \<lparr>all = [''Ann'', ''Bob''], pool = [''Ann''], history = [''Bob'']\<rparr>, [0]) \<and>
   fst (scripted 0 2 (replicate 33 0 @ [2, 1])) = 0 \<and>
   op_draw_range scripted \<lparr>N = 3, noRepeat = True, npool = [1, 2, 3], nhistory = []\<rparr>
       (replicate 33 0 @ [2, 1])
     = (Number 3, \<lparr>N = 3, noRepeat = True, npool = [1, 2], nhistory = [3]\<rparr>, [1])"
proof -
  let ?s = "\<lparr>all = [''Ann'', ''Bob''], pool = [''Ann'', ''Bob''], history = []\<rparr>"
  let ?t = "\<lparr>N = 3, noRepeat = True, npool = [1, 2, 3], nhistory = []\<rparr>"
  let ?g = "replicate 26 0 @ [1, 0::int]"
  let ?h = "replicate 33 0 @ [2, 1::int]"
  have c26: "consume scripted 0 1 26 ?g = [1, 0]" by code_simp
  have c27: "consume scripted 0 1 27 ?g = [0]" by code_simp
  have c33: "consume scripted 1 3 33 ?h = [2, 1]" by code_simp
  have a: "op_draw scripted ?s ?g =
        (Winner (pool ?s ! nat 1) (length (pool ?s) - 1),
         ?s\<lparr>pool := erase_at (nat 1) (pool ?s), history := history ?s @ [pool ?s ! nat 1]\<rparr>,
         consume scripted 0 1 27 ?g)"
    using animation_shares_rng [where s = ?s and u = scripted and hi = 1 and idx = 1 and g = ?g]
      scripted_ok c26 by (simp add: scripted_def)
  have b: "op_draw_range scripted ?t ?h =
        (Number (npool ?t ! nat 2),
         ?t\<lparr>npool := erase_at (nat 2) (npool ?t), nhistory := nhistory ?t @ [npool ?t ! nat 2]\<rparr>,
         snd (scripted 0 (int (length (npool ?t)) - 1) [2, 1]))"
    using animation_shares_rng [where t = ?t and u = scripted and r = "[2, 1]" and k = 2 and g = ?h]
      scripted_ok c33 by (simp add: scripted_def)
  have f1: "fst (scripted 0 1 ?g) = 0" by code_simp
  have f2: "fst (scripted 0 2 ?h) = 0" by code_simp
  have e1: "erase_at (nat 1) [''Ann'', ''Bob''] = [''Ann'']" by code_simp
  have e2: "erase_at (nat 2) [1, 2, 3::int] = [1, 2]" by code_simp
  show ?thesis using a b f1 f2 scripted_ok c27 e1 e2 by (simp add: scripted_def)
qed

text \<open>
  C6. Both draws are atomic. A draw of a name either fails with \<open>EmptyPool\<close> (the pool
  is empty) and leaves the store and the engine as they were, or it succeeds and does
  both updates: one position is erased from the pool and the name that stood there is
  appended to the history. A draw of a number either fails with \<open>NotConfigured\<close>
  (\<open>N\<close> is not set) or with \<open>EmptyPool\<close> (no-repeat is on and the pool is empty), and
  then the store and the engine are as they were; or it succeeds: with no-repeat on, one
  position is erased from the pool and the number that stood there is appended to the
  history; with no-repeat off, where no pool is in use, the number drawn is appended
  to the history.
\<close>

theorem draws_are_atomic:
  "sampler_ok u \<Longrightarrow>
     ((pool s = [] \<and> op_draw u s g = (EmptyPool, s, g)) \<or>
      (\<exists>i. i < length (pool s) \<and>
         fst (op_draw u s g) = Winner (pool s ! i) (length (pool s) - 1) \<and>
         fst (snd (op_draw u s g))
           = s\<lparr>pool := erase_at i (pool s), history := history s @ [pool s ! i]\<rparr> \<and>
         length (erase_at i (pool s)) + 1 = length (pool s))) \<and>
     ((N t \<le> 0 \<and> op_draw_range u t g = (NotConfigured, t, g)) \<or>
      (0 < N t \<and> noRepeat t \<and> npool t = [] \<and> op_draw_range u t g = (EmptyPool, t, g)) \<or>
      (0 < N t \<and> noRepeat t \<and>
       (\<exists>i. i < length (npool t) \<and>
          fst (op_draw_range u t g) = Number (npool t ! i) \<and>
          fst (snd (op_draw_range u t g))
            = t\<lparr>npool := erase_at i (npool t), nhistory := nhistory t @ [npool t ! i]\<rparr> \<and>
          length (erase_at i (npool t)) + 1 = length (npool t))) \<or>
      (0 < N t \<and> \<not> noRepeat t \<and>
       (\<exists>x. 1 \<le> x \<and> x \<le> N t \<and>
          fst (op_draw_range u t g) = Number x \<and>
          fst (snd (op_draw_range u t g)) = t\<lparr>nhistory := nhistory t @ [x]\<rparr>)))"
proof (intro conjI)
  assume ok: "sampler_ok u"
  show "(pool s = [] \<and> op_draw u s g = (EmptyPool, s, g)) \<or>
      (\<exists>i. i < length (pool s) \<and>
         fst (op_draw u s g) = Winner (pool s ! i) (length (pool s) - 1) \<and>
         fst (snd (op_draw u s g))
           = s\<lparr>pool := erase_at i (pool s), history := history s @ [pool s ! i]\<rparr> \<and>
         length (erase_at i (pool s)) + 1 = length (pool s))"
  proof (cases "pool s = []")
    case True
    then show ?thesis by (simp add: op_draw_def)
  next
    case False
    let ?i = "nat (fst (animated_pick_index u (pool s) g))"
    from animated_pick_index_range [OF ok False, of g] have i: "?i < length (pool s)" by linarith
    have "fst (op_draw u s g) = Winner (pool s ! ?i) (length (pool s) - 1) \<and>
         fst (snd (op_draw u s g))
           = s\<lparr>pool := erase_at ?i (pool s), history := history s @ [pool s ! ?i]\<rparr>"
      using op_draw_success [OF ok False, of g] by simp
    moreover have "length (erase_at ?i (pool s)) + 1 = length (pool s)"
      using i by (simp add: length_erase_at)
    ultimately show ?thesis using i by blast
  qed
  show "(N t \<le> 0 \<and> op_draw_range u t g = (NotConfigured, t, g)) \<or>
      (0 < N t \<and> noRepeat t \<and> npool t = [] \<and> op_draw_range u t g = (EmptyPool, t, g)) \<or>
      (0 < N t \<and> noRepeat t \<and>
       (\<exists>i. i < length (npool t) \<and>
          fst (op_draw_range u t g) = Number (npool t ! i) \<and>
          fst (snd (op_draw_range u t g))
            = t\<lparr>npool := erase_at i (npool t), nhistory := nhistory t @ [npool t ! i]\<rparr> \<and>
          length (erase_at i (npool t)) + 1 = length (npool t))) \<or>
      (0 < N t \<and> \<not> noRepeat t \<and>
       (\<exists>x. 1 \<le> x \<and> x \<le> N t \<and>
          fst (op_draw_range u t g) = Number x \<and>
          fst (snd (op_draw_range u t g)) = t\<lparr>nhistory := nhistory t @ [x]\<rparr>))"
  proof -
    consider (a) "N t \<le> 0" | (b) "0 < N t" "noRepeat t" "npool t = []"
      | (c) "0 < N t" "noRepeat t" "npool t \<noteq> []" | (d) "0 < N t" "\<not> noRepeat t"
      by fastforce
    then show ?thesis
    proof cases
      case a
      then show ?thesis by (simp add: op_draw_range_def)
    next
      case b
      then show ?thesis by (simp add: op_draw_range_def)
    next
      case c
      let ?k = "fst (u 0 (int (length (npool t)) - 1) (consume u 1 (N t) 33 g))"
      note r = op_draw_range_success [OF ok c refl refl, of g]
      then have i: "nat ?k < length (npool t)" by linarith
      have "fst (op_draw_range u t g) = Number (npool t ! nat ?k) \<and>
          fst (snd (op_draw_range u t g))
            = t\<lparr>npool := erase_at (nat ?k) (npool t), nhistory := nhistory t @ [npool t ! nat ?k]\<rparr>"
        using r by simp
      moreover have "length (erase_at (nat ?k) (npool t)) + 1 = length (npool t)"
        using i by (simp add: length_erase_at)
      ultimately show ?thesis using c i by blast
    next
      case d
      note r = op_draw_range_repeat [OF ok d, of g]
      then have "1 \<le> fst (animated_pick_number u (N t) g) \<and>
          fst (animated_pick_number u (N t) g) \<le> N t \<and>
          fst (op_draw_range u t g) = Number (fst (animated_pick_number u (N t) g)) \<and>
          fst (snd (op_draw_range u t g))
            = t\<lparr>nhistory := nhistory t @ [fst (animated_pick_number u (N t) g)]\<rparr>"
        by simp
      then show ?thesis using d by blast
    qed
  qed
qed


theorem draws_are_atomic_witness:
  "sampler_ok scripted \<and>
   op_draw scripted roster_init [7] = (EmptyPool, roster_init, [7]) \<and>
   op_draw_range scripted range_init [7] = (NotConfigured, range_init, [7]) \<and>
   op_draw_range scripted \<lparr>N = 1, noRepeat = True, npool = [], nhistory = [1]\<rparr> [7]
     = (EmptyPool, \<lparr>N = 1, noRepeat = True, npool = [], nhistory = [1]\<rparr>, [7]) \<and>
   length (pool (fst (snd (op_draw scripted
       \<lparr>all = [''Ann'', ''Bob''], pool = [''Ann'', ''Bob''], history = []\<rparr> [])))) + 1 = 2 \<and>
   length (history (fst (snd (op_draw scripted
       \<lparr>all = [''Ann'', ''Bob''], pool = [''Ann'', ''Bob''], history = []\<rparr> [])))) = 1 \<and>
   length (npool (fst (snd (op_draw_range scripted
       \<lparr>N = 2, noRepeat = True, npool = [1, 2], nhistory = []\<rparr> [])))) + 1 = 2 \<and>
   length (nhistory (fst (snd (op_draw_range scripted
       \<lparr>N = 2, noRepeat = True, npool = [1, 2], nhistory = []\<rparr> [])))) = 1 \<and>
   npool (fst (snd (op_draw_range scripted
       \<lparr>N = 2, noRepeat = False, npool = [1, 2], nhistory = [2]\<rparr> []))) = [1, 2] \<and>
   length (nhistory (fst (snd (op_draw_range scripted
       \<lparr>N = 2, noRepeat = False, npool = [1, 2], nhistory = [2]\<rparr> [])))) = 2"
proof -
  let ?s = "\<lparr>all = [''Ann'', ''Bob''], pool = [''Ann'', ''Bob''], history = []\<rparr>"
  let ?t = "\<lparr>N = 2, noRepeat = True, npool = [1, 2], nhistory = []\<rparr>"
  let ?e = "\<lparr>N = 1, noRepeat = True, npool = [], nhistory = [1]\<rparr>"
  let ?r = "\<lparr>N = 2, noRepeat = False, npool = [1, 2], nhistory = [2]\<rparr>"
  note a = draws_are_atomic [OF scripted_ok, of roster_init "[7]" range_init]
  have a1: "op_draw scripted roster_init [7] = (EmptyPool, roster_init, [7])"
    using a by (simp add: roster_init_def)
  have a2: "op_draw_range scripted range_init [7] = (NotConfigured, range_init, [7])"
    using a by (simp add: range_init_def)
  have b1: "op_draw_range scripted ?e [7] = (EmptyPool, ?e, [7])"
    using draws_are_atomic [OF scripted_ok, of ?s "[7]" ?e] by simp
  note c = draws_are_atomic [OF scripted_ok, of ?s "[]" ?t]
  from c obtain i where i: "i < length (pool ?s)"
      "fst (snd (op_draw scripted ?s [])) = ?s\<lparr>pool := erase_at i (pool ?s), history := history ?s @ [pool ?s ! i]\<rparr>"
      "length (erase_at i (pool ?s)) + 1 = length (pool ?s)"
    by auto
  from c obtain k where k: "k < length (npool ?t)"
      "fst (snd (op_draw_range scripted ?t [])) = ?t\<lparr>npool := erase_at k (npool ?t), nhistory := nhistory ?t @ [npool ?t ! k]\<rparr>"
      "length (erase_at k (npool ?t)) + 1 = length (npool ?t)"
    by auto
  have c1: "length (pool (fst (snd (op_draw scripted ?s [])))) + 1 = 2" using i by simp
  have c2: "length (history (fst (snd (op_draw scripted ?s [])))) = 1" using i by simp
  have c3: "length (npool (fst (snd (op_draw_range scripted ?t [])))) + 1 = 2" using k by simp
  have c4: "length (nhistory (fst (snd (op_draw_range scripted ?t [])))) = 1" using k by simp
  note d = draws_are_atomic [OF scripted_ok, of ?s "[]" ?r]
  from d obtain x where x:
      "fst (snd (op_draw_range scripted ?r [])) = ?r\<lparr>nhistory := nhistory ?r @ [x]\<rparr>"
    by auto
  have d1: "npool (fst (snd (op_draw_range scripted ?r []))) = [1, 2]" using x by simp
  have d2: "length (nhistory (fst (snd (op_draw_range scripted ?r [])))) = 2" using x by simp
  show ?thesis using scripted_ok a1 a2 b1 c1 c2 c3 c4 d1 d2 by simp
qed

section \<open>Exporting the history\<close>

text \<open>
  C8. When the output file can be opened, operation 6 of mode A writes the history as
  CSV: one record \<open>i,name\<close> followed by a newline for each entry, \<open>i\<close> counting from
  1 in the order of the draws, nothing before the first record and nothing after the
  last newline. The old contents of the file are gone. An empty history gives an empty
  file, and the operation reports the export. The history \<open>Ann, Bob\<close> gives the two
  lines \<open>1,Ann\<close> and \<open>2,Bob\<close>, each with its newline.
\<close>

theorem export_history_csv:
  "writable fs out \<Longrightarrow>
     fst (op_export out s fs) = Exported out \<and>
     files (snd (op_export out s fs)) out
       = Some (concat (map (\<lambda>i. show_nat (i + 1) @ '','' @ history s ! i @ [CHR 0x0A])
                 [0..<length (history s)])) \<and>
     (history s = [] \<longrightarrow> files (snd (op_export out s fs)) out = Some [])"
  by (simp add: op_export_def save_history_to_file_def save_loop_rows)

theorem export_history_csv_witness:
  "writable \<lparr>files = Map.empty, writable = (\<lambda>p. p = ''out.csv'')\<rparr> ''out.csv'' \<and>
   files (snd (op_export ''out.csv''
       \<lparr>all = [''Ann'', ''Bob''], pool = [], history = [''Ann'', ''Bob'']\<rparr>
       \<lparr>files = Map.empty, writable = (\<lambda>p. p = ''out.csv'')\<rparr>)) ''out.csv''
     = Some (''1,Ann'' @ [CHR 0x0A] @ ''2,Bob'' @ [CHR 0x0A]) \<and>
   op_export ''out.csv'' roster_init \<lparr>files = Map.empty, writable = (\<lambda>p. p = ''out.csv'')\<rparr>
     = (Exported ''out.csv'', \<lparr>files = [''out.csv'' \<mapsto> []], writable = (\<lambda>p. p = ''out.csv'')\<rparr>)"
proof -
  let ?fs = "\<lparr>files = Map.empty, writable = (\<lambda>p. p = ''out.csv'')\<rparr>"
  let ?s = "\<lparr>all = [''Ann'', ''Bob''], pool = [], history = [''Ann'', ''Bob'']\<rparr>"
  have w: "writable ?fs ''out.csv''" by simp
  have u: "[0..<2] = [0, Suc 0]" by (simp add: upt_conv_Cons)
  have a: "files (snd (op_export ''out.csv'' ?s ?fs)) ''out.csv''
     = Some (''1,Ann'' @ [CHR 0x0A] @ ''2,Bob'' @ [CHR 0x0A])"
    using export_history_csv [OF w, of ?s] show_nat_1 show_nat_2 by (simp add: u)
  note b = export_history_csv [OF w, of roster_init]
  have b1: "fst (op_export ''out.csv'' roster_init ?fs) = Exported ''out.csv''" using b by simp
  have b2: "files (snd (op_export ''out.csv'' roster_init ?fs)) ''out.csv'' = Some []"
    using b by (simp add: roster_init_def)
  have b3: "snd (op_export ''out.csv'' roster_init ?fs)
      = ?fs\<lparr>files := (files ?fs)(''out.csv'' \<mapsto> save_loop (history roster_init) 0 [])\<rparr>"
    by (simp add: op_export_def save_history_to_file_def)
  have b4: "save_loop (history roster_init) 0 [] = []"
    using b2 b3 by simp
  have "op_export ''out.csv'' roster_init ?fs
     = (Exported ''out.csv'', \<lparr>files = [''out.csv'' \<mapsto> []], writable = (\<lambda>p. p = ''out.csv'')\<rparr>)"
    using b1 b3 b4 by (simp add: prod_eq_iff)
  then show ?thesis using w a by simp
qed

text \<open>
  C4. The specification asks that an export to a file that cannot be written fails with
  \<open>IoError\<close>, tells the user so with the path, and reports no success. The program
  does not: \<open>save_history_to_file\<close> returns silently when the stream cannot be opened,
  and operation 6 prints its green "written" message all the same. Loading from a file
  that cannot be opened (operation 2) does report \<open>CannotOpen\<close> with the path. In both
  cases the roster is unchanged.
\<close>

theorem export_failure_reports_success:
  "\<not> writable \<lparr>files = Map.empty, writable = (\<lambda>p. False)\<rparr> ''/nowhere/out.csv'' \<and>
   op_export ''/nowhere/out.csv''
       \<lparr>all = [''Ann''], pool = [], history = [''Ann'']\<rparr>
       \<lparr>files = Map.empty, writable = (\<lambda>p. False)\<rparr>
     = (Exported ''/nowhere/out.csv'', \<lparr>files = Map.empty, writable = (\<lambda>p. False)\<rparr>) \<and>
   op_load_file ''/nowhere/in.txt'' \<lparr>files = Map.empty, writable = (\<lambda>p. False)\<rparr>
       \<lparr>all = [''Ann''], pool = [], history = [''Ann'']\<rparr>
     = (CannotOpen ''/nowhere/in.txt'', \<lparr>all = [''Ann''], pool = [], history = [''Ann'']\<rparr>)"
  by (simp add: op_export_def save_history_to_file_def op_load_file_def)

section \<open>The stores along a session\<close>

text \<open>
  C7. Entering the same lines twice gives the same store as entering them once, from
  every store, for typed input (operation 1) and for a file (operation 2): \<open>all\<close>,
  \<open>pool\<close> and \<open>history\<close> are the same. On a fresh store the four lines
  \<open>"  Alice "\<close>, \<open>"Alice"\<close>, \<open>"Bob"\<close>, \<open>"Alice"\<close> give \<open>all = pool = [Alice, Bob]\<close>.
\<close>

theorem add_many_idempotent:
  "snd (op_manual_input x (snd (op_manual_input x s))) = snd (op_manual_input x s) \<and>
   snd (op_load_file f fs (snd (op_load_file f fs s))) = snd (op_load_file f fs s) \<and>
   all (snd (op_manual_input [''  Alice '', ''Alice'', ''Bob'', ''Alice''] roster_init))
     = [''Alice'', ''Bob''] \<and>
   pool (snd (op_manual_input [''  Alice '', ''Alice'', ''Bob'', ''Alice''] roster_init))
     = [''Alice'', ''Bob'']"
proof (intro conjI)
  show "snd (op_manual_input x (snd (op_manual_input x s))) = snd (op_manual_input x s)"
    by (simp add: op_manual_input_eq dedup_twice)
  show "snd (op_load_file f fs (snd (op_load_file f fs s))) = snd (op_load_file f fs s)"
  proof (cases "files fs f")
    case None
    then show ?thesis by (simp add: op_load_file_none)
  next
    case (Some c)
    then show ?thesis by (simp add: op_load_file_eq dedup_twice)
  qed
  show "all (snd (op_manual_input [''  Alice '', ''Alice'', ''Bob'', ''Alice''] roster_init))
     = [''Alice'', ''Bob'']"
    by code_simp
  show "pool (snd (op_manual_input [''  Alice '', ''Alice'', ''Bob'', ''Alice''] roster_init))
     = [''Alice'', ''Bob'']"
    by code_simp
qed

text \<open>
  C5. In mode B, after any sequence of operations from the initial store, with a sampler
  that keeps its interval: if no-repeat is on, the pool and the history together hold
  exactly the numbers \<open>1, ..., N\<close>, no number is in both, and no number is twice in the
  history. No draw of the session indexes outside the pool. Every session in which each
  \<open>N\<close> entered is below the largest \<open>int\<close> comes back to the menu after its last
  operation, so it has such a final store.
\<close>

theorem range_conservation:
  "sampler_ok u \<Longrightarrow>
     (list_all countable_cmd cs \<longrightarrow> mode_range_run u cs (range_init, g) \<noteq> None) \<and>
     (mode_range_run u cs (range_init, g) = Some (rs, s, g') \<longrightarrow>
        Undefined \<notin> set rs \<and>
        (noRepeat s \<longrightarrow>
           set (npool s) \<union> set (nhistory s) = {1..N s} \<and>
           set (npool s) \<inter> set (nhistory s) = {} \<and>
           distinct (nhistory s)))"
proof (intro conjI impI)
  assume "list_all countable_cmd cs"
  moreover have "N range_init < INT_MAX" by (simp add: range_init_def INT_MAX_def)
  ultimately show "mode_range_run u cs (range_init, g) \<noteq> None"
    by (rule mode_range_run_returns)
next
  assume ok: "sampler_ok u" and run: "mode_range_run u cs (range_init, g) = Some (rs, s, g')"
  note inv = mode_range_run_inv [OF ok range_inv_init run]
  from inv show "Undefined \<notin> set rs" by simp
  assume "noRepeat s"
  with inv show "set (npool s) \<union> set (nhistory s) = {1..N s}"
    and "set (npool s) \<inter> set (nhistory s) = {}"
    and "distinct (nhistory s)"
    by (simp_all add: range_inv_def)
qed

theorem range_conservation_witness:
  "sampler_ok scripted \<and>
   list_all countable_cmd
       [SetN 3, DrawNumber, ToggleNoRepeat, DrawNumber, ToggleNoRepeat, DrawNumber] \<and>
   mode_range_run scripted
       [SetN 3, DrawNumber, ToggleNoRepeat, DrawNumber, ToggleNoRepeat, DrawNumber]
       (range_init, replicate 33 1 @ [2] @ replicate 32 1 @ [3] @ replicate 33 1 @ [0])
     = Some ([NSet 3, Number 3, Toggled False, Number 3, Toggled True, Number 1],
        \<lparr>N = 3, noRepeat = True, npool = [2, 3], nhistory = [1]\<rparr>, []) \<and>
   set [2, 3] \<union> set [1] = {1..3::int} \<and>
   set [2, 3::int] \<inter> set [1] = {} \<and>
   distinct [1::int]"
proof -
  have cmds: "list_all countable_cmd
       [SetN 3, DrawNumber, ToggleNoRepeat, DrawNumber, ToggleNoRepeat, DrawNumber]"
    by (simp add: INT_MAX_def)
  have run: "mode_range_run scripted
       [SetN 3, DrawNumber, ToggleNoRepeat, DrawNumber, ToggleNoRepeat, DrawNumber]
       (range_init, replicate 33 1 @ [2] @ replicate 32 1 @ [3] @ replicate 33 1 @ [0])
     = Some ([NSet 3, Number 3, Toggled False, Number 3, Toggled True, Number 1],
        \<lparr>N = 3, noRepeat = True, npool = [2, 3], nhistory = [1]\<rparr>, [])"
    by code_simp
  note ret = range_conservation [OF scripted_ok, THEN conjunct1, rule_format, OF cmds]
  from range_conservation [OF scripted_ok, THEN conjunct2, rule_format, OF run]
    scripted_ok cmds run ret
  show ?thesis by simp
qed

text \<open>
  C1. The specification asks that after every operation of mode A the pool and the
  history share no name and \<open>|all| = |pool| + |history|\<close>, also when a name that was
  already drawn is entered again. The program does not keep that: entering \<open>Ann\<close>,
  drawing (the only candidate wins) and entering \<open>Ann\<close> again leaves \<open>Ann\<close> in
  \<open>all\<close> once, in the pool and in the history, because \<open>dedup_preserve_order(pool)\<close>
  compares the new name with the pool only. The lemmas \<open>roster_inv_manual_input\<close>,
  \<open>roster_inv_load_file\<close>, \<open>roster_inv_draw\<close> and \<open>roster_inv_reset\<close> above show
  that every operation keeps the invariants as long as no entered name is in the history.
\<close>

theorem readd_drawn_name_breaks_roster:
  "fst (snd (mode_list_run scripted [ManualInput [''Ann''], DrawOne, ManualInput [''Ann'']]
       (roster_init, empty_fs, [])))
     = \<lparr>all = [''Ann''], pool = [''Ann''], history = [''Ann'']\<rparr> \<and>
   ''Ann'' \<in> set (pool (fst (snd (mode_list_run scripted [ManualInput [''Ann''], DrawOne, ManualInput [''Ann'']]
       (roster_init, empty_fs, []))))) \<and>
   ''Ann'' \<in> set (history (fst (snd (mode_list_run scripted [ManualInput [''Ann''], DrawOne, ManualInput [''Ann'']]
       (roster_init, empty_fs, []))))) \<and>
   length (all (fst (snd (mode_list_run scripted [ManualInput [''Ann''], DrawOne, ManualInput [''Ann'']]
       (roster_init, empty_fs, []))))) = 1 \<and>
   length (pool (fst (snd (mode_list_run scripted [ManualInput [''Ann''], DrawOne, ManualInput [''Ann'']]
       (roster_init, empty_fs, [])))))
     + length (history (fst (snd (mode_list_run scripted [ManualInput [''Ann''], DrawOne, ManualInput [''Ann'']]
       (roster_init, empty_fs, []))))) = 2"
proof -
  have "fst (snd (mode_list_run scripted [ManualInput [''Ann''], DrawOne, ManualInput [''Ann'']]
       (roster_init, empty_fs, [])))
     = \<lparr>all = [''Ann''], pool = [''Ann''], history = [''Ann'']\<rparr>"
    by code_simp
  then show ?thesis by simp
qed

section \<open>Two sessions, evaluated\<close>

text \<open>
  Mode A: three names are entered; three draws whose deciding samples are 1, 0 and 0
  give Bob, Ann and Cid; a fourth draw finds the pool empty; the reset restores the pool.
\<close>

lemma roster_session_example:
  "fst (mode_list_run scripted
       [ManualInput [''Ann'', ''Bob'', ''Cid''], DrawOne, DrawOne, DrawOne, DrawOne, ResetDraw]
       (roster_init, empty_fs, replicate 26 0 @ [1] @ replicate 26 0 @ [0] @ replicate 26 0 @ [0]))
     = [Added 3 3, Winner ''Bob'' 2, Winner ''Ann'' 1, Winner ''Cid'' 0, EmptyPool, ResetDone 3]"
  "fst (snd (mode_list_run scripted
       [ManualInput [''Ann'', ''Bob'', ''Cid''], DrawOne, DrawOne, DrawOne, DrawOne]
       (roster_init, empty_fs, replicate 26 0 @ [1] @ replicate 26 0 @ [0] @ replicate 26 0 @ [0])))
     = \<lparr>all = [''Ann'', ''Bob'', ''Cid''], pool = [], history = [''Bob'', ''Ann'', ''Cid'']\<rparr>"
  "fst (snd (mode_list_run scripted
       [ManualInput [''Ann'', ''Bob'', ''Cid''], DrawOne, DrawOne, DrawOne, DrawOne, ResetDraw]
       (roster_init, empty_fs, replicate 26 0 @ [1] @ replicate 26 0 @ [0] @ replicate 26 0 @ [0])))
     = \<lparr>all = [''Ann'', ''Bob'', ''Cid''], pool = [''Ann'', ''Bob'', ''Cid''], history = []\<rparr>"
  by code_simp+

text \<open>Mode B: \<open>N = 0\<close> is refused, and the draw that follows finds \<open>N\<close> unset.\<close>

lemma range_session_example:
  "mode_range_run scripted [SetN 0, DrawNumber] (range_init, [5])
     = Some ([DomainError, NotConfigured], range_init, [5])"
  by code_simp

text \<open>
  Mode B: \<open>N = 3\<close>, a no-repeat draw whose index sample is 2 gives 3; no-repeat is
  switched off, which keeps the history; a draw whose sample is 1 gives 1.
\<close>

lemma range_toggle_session_example:
  "mode_range_run scripted [SetN 3, DrawNumber, ToggleNoRepeat, DrawNumber]
       (range_init, replicate 33 1 @ [2] @ replicate 32 2 @ [1])
     = Some ([NSet 3, Number 3, Toggled False, Number 1],
        \<lparr>N = 3, noRepeat = False, npool = [1, 2], nhistory = [3, 1]\<rparr>, [])"
  by code_simp

end
